theory Spec2Isabelle
  imports Main "HOL-Library.Sublist"
begin

section \<open>Python values and the output stream\<close>

text \<open>
  The module \<open>maestro/termoutput.py\<close> passes around values that are either a
  Python string or \<open>None\<close>: the prefix, the committed text and the suffix
  arguments of a formatter. They are modelled as \<open>string option\<close>, with
  \<open>None\<close> for Python's \<open>None\<close>.
\<close>

type_synonym pystr = "string option"

text \<open>
  Python truthiness, as used by \<open>if self._committed and s\<close>: \<open>None\<close> and the
  empty string are false, every other string is true.
\<close>

definition truthy :: "pystr \<Rightarrow> bool" where
  "truthy v = (case v of None \<Rightarrow> False | Some t \<Rightarrow> t \<noteq> [])"

text \<open>What \<open>'{}'.format(v)\<close> produces for a string or \<open>None\<close>.\<close>

definition py_str :: "pystr \<Rightarrow> string" where
  "py_str v = (case v of None \<Rightarrow> ''None'' | Some t \<Rightarrow> t)"

text \<open>
  What \<open>'{}'.format(n)\<close> produces for an integer: its decimal digits, with a
  leading minus sign when negative.
\<close>

definition digit_char :: "nat \<Rightarrow> char" where
  "digit_char d = char_of (48 + d)"

fun str_nat :: "nat \<Rightarrow> string" where
  "str_nat n = (if n < 10 then [digit_char n]
                else str_nat (n div 10) @ [digit_char (n mod 10)])"

declare str_nat.simps [simp del]

definition str_int :: "int \<Rightarrow> string" where
  "str_int i = (if i < 0 then CHR ''-'' # str_nat (nat (- i)) else str_nat (nat i))"

text \<open>Python truthiness of an integer or \<open>None\<close> (\<open>if pos\<close>).\<close>

definition truthy_int :: "int option \<Rightarrow> bool" where
  "truthy_int p = (case p of None \<Rightarrow> False | Some n \<Rightarrow> n \<noteq> 0)"

definition py_str_int :: "int option \<Rightarrow> string" where
  "py_str_int p = (case p of None \<Rightarrow> ''None'' | Some n \<Rightarrow> str_int n)"

text \<open>The control characters of the escape vocabulary.\<close>

definition ESC :: char where "ESC = CHR 0x1B"
definition CR :: char where "CR = CHR 0x0D"
definition LF :: char where "LF = CHR 0x0A"

text \<open>
  \<open>sys.stdout\<close> is modelled by the bytes written to it so far;
  \<open>sys.stdout.write(s)\<close> appends \<open>s\<close>. \<open>sys.stdout.flush()\<close> writes no byte
  and is the identity. The stream is taken to accept every write.
\<close>

type_synonym stdout = string

definition stdout_write :: "string \<Rightarrow> stdout \<Rightarrow> stdout" where
  "stdout_write s out = out @ s"

section \<open>OutputFormatter\<close>

text \<open>
  An \<open>OutputFormatter\<close> holds its printer callback, its prefix and its
  committed text. The printer acts on a world \<open>'w\<close> (for the printers handed
  out by \<open>OutputManager.get_formatter\<close>, the bytes of \<open>sys.stdout\<close>); every
  method takes the formatter and the world and returns both, updated.
\<close>

record 'w OutputFormatter =
  f_printer :: "pystr \<Rightarrow> 'w \<Rightarrow> 'w"
  f_prefix :: pystr
  f_committed :: pystr

definition OutputFormatter_init :: "(pystr \<Rightarrow> 'w \<Rightarrow> 'w) \<Rightarrow> pystr \<Rightarrow> 'w OutputFormatter" where
  "OutputFormatter_init printer pfx =
     \<lparr>f_printer = printer, f_prefix = pfx, f_committed = pfx\<rparr>"

definition commit :: "pystr \<Rightarrow> 'w OutputFormatter \<Rightarrow> 'w \<Rightarrow> 'w OutputFormatter \<times> 'w" where
  "commit s f w =
     (let f' = (if truthy (f_committed f) \<and> truthy s
                  then f\<lparr>f_committed := Some (py_str (f_committed f) @ '' '' @ py_str s)\<rparr>
                else if \<not> truthy (f_committed f) \<and> truthy s
                  then f\<lparr>f_committed := s\<rparr>
                else f)
      in (f', f_printer f' (f_committed f') w))"

definition pending :: "pystr \<Rightarrow> 'w OutputFormatter \<Rightarrow> 'w \<Rightarrow> 'w OutputFormatter \<times> 'w" where
  "pending s f w =
     (let w1 = (if truthy (f_committed f) \<and> truthy s
                  then f_printer f (Some (py_str (f_committed f) @ '' '' @ py_str s)) w
                else w);
          w2 = (if \<not> truthy (f_committed f) \<and> truthy s
                  then f_printer f s w1
                else w1)
      in (f, w2))"

definition reset :: "'w OutputFormatter \<Rightarrow> 'w \<Rightarrow> 'w OutputFormatter \<times> 'w" where
  "reset f w = commit None (f\<lparr>f_committed := f_prefix f\<rparr>) w"

section \<open>OutputManager\<close>

text \<open>
  The manager holds the number of lines and the table of the formatters it
  has handed out. \<open>OutputManager_print\<close> is what one call of \<open>_print\<close> does
  to the stream when no other thread writes meanwhile; the lock and the
  threads come further down, with the events of a call. The table stores the formatter as it was created (the source stores a
  reference that no method of the module reads back).
\<close>

record OutputManager =
  lines :: int
  formatters :: "int option \<rightharpoonup> stdout OutputFormatter"

definition OutputManager_init :: "int \<Rightarrow> OutputManager" where
  "OutputManager_init n = \<lparr>lines = n, formatters = Map.empty\<rparr>"

definition OutputManager_print :: "pystr \<Rightarrow> int option \<Rightarrow> stdout \<Rightarrow> stdout" where
  "OutputManager_print s pos out =
     (let out1 = (if truthy_int pos
                    then stdout_write ([ESC, CHR ''[''] @ py_str_int pos @ ''B'') out
                  else out);
          out2 = stdout_write ([CR] @ py_str s @ [ESC, CHR ''['', CHR ''K'', CR]) out1;
          out3 = (if truthy_int pos
                    then stdout_write ([ESC, CHR ''[''] @ py_str_int pos @ ''A'') out2
                  else out2)
      in out3)"

definition OutputManager_start :: "OutputManager \<Rightarrow> stdout \<Rightarrow> stdout" where
  "OutputManager_start m out =
     OutputManager_print
       (Some (replicate (nat (lines m)) LF @ [ESC, CHR ''[''] @ str_int (lines m) @ ''A''))
       None out"

definition OutputManager_get_formatter ::
  "int option \<Rightarrow> pystr \<Rightarrow> OutputManager \<Rightarrow> OutputManager \<times> stdout OutputFormatter" where
  "OutputManager_get_formatter pos pfx m =
     (let f = OutputFormatter_init (\<lambda>s. OutputManager_print s pos) pfx
      in (m\<lparr>formatters := (formatters m)(pos \<mapsto> f)\<rparr>, f))"

definition OutputManager_end :: "OutputManager \<Rightarrow> stdout \<Rightarrow> stdout" where
  "OutputManager_end m out =
     OutputManager_print (Some ([ESC, CHR ''[''] @ str_int (lines m) @ ''B'')) None out"

section \<open>Driving a formatter\<close>

text \<open>
  A caller drives a formatter by a sequence of method calls. \<open>commits\<close> runs
  \<open>commit\<close> once for each suffix of a list, in order; \<open>run_calls\<close> runs any
  sequence of the three methods.
\<close>

fun commits :: "pystr list \<Rightarrow> 'w OutputFormatter \<Rightarrow> 'w \<Rightarrow> 'w OutputFormatter \<times> 'w" where
  "commits [] f w = (f, w)"
| "commits (s # ss) f w = (case commit s f w of (f', w') \<Rightarrow> commits ss f' w')"

datatype call = Commit pystr | Pending pystr | Reset

fun run_call :: "call \<Rightarrow> 'w OutputFormatter \<Rightarrow> 'w \<Rightarrow> 'w OutputFormatter \<times> 'w" where
  "run_call (Commit s) f w = commit s f w"
| "run_call (Pending s) f w = pending s f w"
| "run_call Reset f w = reset f w"

fun run_calls :: "call list \<Rightarrow> 'w OutputFormatter \<Rightarrow> 'w \<Rightarrow> 'w OutputFormatter \<times> 'w" where
  "run_calls [] f w = (f, w)"
| "run_calls (c # cs) f w = (case run_call c f w of (f', w') \<Rightarrow> run_calls cs f' w')"

text \<open>
  A printer that records, in order, every value it is asked to render; the
  world is the list of the values rendered so far.
\<close>

definition log_printer :: "pystr \<Rightarrow> pystr list \<Rightarrow> pystr list" where
  "log_printer s w = w @ [s]"

text \<open>The text held by a committed value: nothing when it is \<open>None\<close>.\<close>

definition committed_text :: "pystr \<Rightarrow> string" where
  "committed_text v = (case v of None \<Rightarrow> [] | Some t \<Rightarrow> t)"

section \<open>The escape vocabulary and the rows of the terminal\<close>

text \<open>
  \<open>csi n c\<close> is the control sequence \<open>CSI n c\<close> with the integer parameter
  \<open>n\<close> printed in decimal; \<open>csi_K\<close> is \<open>CSI K\<close>, clear to end of line.
\<close>

definition csi :: "int \<Rightarrow> char \<Rightarrow> string" where
  "csi n c = [ESC, CHR ''[''] @ str_int n @ [c]"

definition csi_K :: string where
  "csi_K = [ESC, CHR ''['', CHR ''K'']"

text \<open>
  The row of the cursor, as a terminal with an unbounded screen follows it
  while it reads the stream: a line feed moves one row down, \<open>CSI n A\<close> moves
  \<open>n\<close> rows up, \<open>CSI n B\<close> moves \<open>n\<close> rows down, every other byte and
  sequence leaves the row alone. Terminals differ on a parameter \<open>0\<close> (none,
  or one row): \<open>z\<close> is the number of rows a parameter \<open>0\<close> stands for.
\<close>

datatype term_state = Ground | Escape | Csi nat

definition is_digit :: "char \<Rightarrow> bool" where
  "is_digit c = (48 \<le> (of_char c :: nat) \<and> (of_char c :: nat) \<le> 57)"

definition digit_val :: "char \<Rightarrow> nat" where
  "digit_val c = of_char c - 48"

definition csi_rows :: "nat \<Rightarrow> nat \<Rightarrow> int" where
  "csi_rows z n = (if n = 0 then int z else int n)"

fun term_step :: "nat \<Rightarrow> term_state \<times> int \<Rightarrow> char \<Rightarrow> term_state \<times> int" where
  "term_step z (Ground, row) c =
     (if c = LF then (Ground, row + 1)
      else if c = ESC then (Escape, row)
      else (Ground, row))"
| "term_step z (Escape, row) c =
     (if c = CHR ''['' then (Csi 0, row) else (Ground, row))"
| "term_step z (Csi n, row) c =
     (if is_digit c then (Csi (10 * n + digit_val c), row)
      else if c = CHR ''A'' then (Ground, row - csi_rows z n)
      else if c = CHR ''B'' then (Ground, row + csi_rows z n)
      else (Ground, row))"

definition row_delta :: "nat \<Rightarrow> string \<Rightarrow> int" where
  "row_delta z bytes = snd (foldl (term_step z) (Ground, 0) bytes)"

section \<open>Threads and the lock\<close>

text \<open>
  What one call of \<open>_print\<close> does, event by event and in the order of the
  source: it acquires the lock (entering \<open>with self._lock\<close>), makes its two
  or three calls of \<open>sys.stdout.write\<close>, and releases the lock (leaving the
  \<open>with\<close> block). \<open>sys.stdout.flush()\<close> writes no byte and is no event.
\<close>

datatype event = Acquire | Write string | Release

definition print_events :: "pystr \<Rightarrow> int option \<Rightarrow> event list" where
  "print_events s pos =
     [Acquire]
     @ (if truthy_int pos then [Write ([ESC, CHR ''[''] @ py_str_int pos @ ''B'')] else [])
     @ [Write ([CR] @ py_str s @ [ESC, CHR ''['', CHR ''K'', CR])]
     @ (if truthy_int pos then [Write ([ESC, CHR ''[''] @ py_str_int pos @ ''A'')] else [])
     @ [Release]"

text \<open>
  A thread that drives a formatter makes one call of \<open>_print\<close> after the
  other, each with the text to render and the position of its formatter;
  its program is the events of these calls, in order.
\<close>

type_synonym print_call = "pystr \<times> int option"

definition thread_events :: "print_call list \<Rightarrow> event list" where
  "thread_events calls = concat (map (\<lambda>(s, pos). print_events s pos) calls)"

text \<open>
  The calls of \<open>_print\<close> that a thread makes when it drives the formatter
  for position \<open>pos\<close> and prefix \<open>pfx\<close> by \<open>commit\<close>, once for each suffix of
  \<open>ss\<close>: each \<open>commit\<close> calls the printer once, and the printer of that
  formatter is \<open>_print\<close> at \<open>pos\<close>.
\<close>

definition formatter_calls :: "int option \<Rightarrow> pystr \<Rightarrow> pystr list \<Rightarrow> print_call list" where
  "formatter_calls pos pfx ss =
     map (\<lambda>t. (t, pos)) (snd (commits ss (OutputFormatter_init log_printer pfx) []))"

text \<open>The stream after a list of whole calls of \<open>_print\<close>, one after the other.\<close>

definition print_calls :: "stdout \<Rightarrow> print_call list \<Rightarrow> stdout" where
  "print_calls out calls = foldl (\<lambda>out' (s, pos). OutputManager_print s pos out') out calls"

text \<open>
  Two threads share the lock and the stream. A \<open>threading.Lock\<close> is locked
  or not; \<open>acquire\<close> goes through only when it is not locked and otherwise
  the thread waits, \<open>release\<close> unlocks it. \<open>thread_step\<close> runs the next
  event of a thread, or leaves everything as it is when the thread waits at
  \<open>acquire\<close> or has no event left.
\<close>

fun thread_step :: "event list \<Rightarrow> bool \<Rightarrow> stdout \<Rightarrow> event list \<times> bool \<times> stdout" where
  "thread_step [] locked out = ([], locked, out)"
| "thread_step (Acquire # es) locked out =
     (if locked then (Acquire # es, locked, out) else (es, True, out))"
| "thread_step (Write b # es) locked out = (es, locked, stdout_write b out)"
| "thread_step (Release # es) locked out = (es, False, out)"

datatype tid = T1 | T2

record config =
  lock :: bool
  stream :: stdout
  prog1 :: "event list"
  prog2 :: "event list"

text \<open>
  The scheduler picks the thread that moves next; a run follows a schedule,
  any list of such picks.
\<close>

fun sched_step :: "tid \<Rightarrow> config \<Rightarrow> config" where
  "sched_step T1 c =
     (case thread_step (prog1 c) (lock c) (stream c) of
        (es, locked, out) \<Rightarrow> c\<lparr>lock := locked, stream := out, prog1 := es\<rparr>)"
| "sched_step T2 c =
     (case thread_step (prog2 c) (lock c) (stream c) of
        (es, locked, out) \<Rightarrow> c\<lparr>lock := locked, stream := out, prog2 := es\<rparr>)"

declare sched_step.simps [simp del]

fun run :: "tid list \<Rightarrow> config \<Rightarrow> config" where
  "run [] c = c"
| "run (t # ts) c = run ts (sched_step t c)"

definition init_config :: "stdout \<Rightarrow> print_call list \<Rightarrow> print_call list \<Rightarrow> config" where
  "init_config out calls1 calls2 =
     \<lparr>lock = False, stream = out, prog1 = thread_events calls1, prog2 = thread_events calls2\<rparr>"

definition finished :: "config \<Rightarrow> bool" where
  "finished c = (prog1 c = [] \<and> prog2 c = [])"

text \<open>
  The configurations a run goes through: the lock is free and both threads
  stand between two calls; or one thread holds the lock, with the writes
  \<open>ws\<close> and the release of its call still to come, while the other stands
  between two calls.
\<close>

definition free_config :: "stdout \<Rightarrow> print_call list \<Rightarrow> print_call list \<Rightarrow> config" where
  "free_config out r1 r2 =
     \<lparr>lock = False, stream = out, prog1 = thread_events r1, prog2 = thread_events r2\<rparr>"

definition held1_config ::
  "stdout \<Rightarrow> string list \<Rightarrow> print_call list \<Rightarrow> print_call list \<Rightarrow> config" where
  "held1_config out ws r1 r2 =
     \<lparr>lock = True, stream = out, prog1 = map Write ws @ Release # thread_events r1,
      prog2 = thread_events r2\<rparr>"

definition held2_config ::
  "stdout \<Rightarrow> string list \<Rightarrow> print_call list \<Rightarrow> print_call list \<Rightarrow> config" where
  "held2_config out ws r1 r2 =
     \<lparr>lock = True, stream = out, prog1 = thread_events r1,
      prog2 = map Write ws @ Release # thread_events r2\<rparr>"

section \<open>Basic facts\<close>

lemma digit_char_eval:
  "digit_char 0 = CHR ''0''" "digit_char 1 = CHR ''1''" "digit_char 2 = CHR ''2''"
  "digit_char 3 = CHR ''3''" "digit_char 4 = CHR ''4''" "digit_char 5 = CHR ''5''"
  "digit_char 6 = CHR ''6''" "digit_char 7 = CHR ''7''" "digit_char 8 = CHR ''8''"
  "digit_char 9 = CHR ''9''"
  by code_simp+

lemma replicate_small:
  "replicate 1 x = [x]" "replicate 2 x = [x, x]" "replicate 3 x = [x, x, x]"
  by (simp_all add: numeral_2_eq_2 numeral_3_eq_3)

lemma ctrl_distinct:
  "CR \<noteq> LF" "CR \<noteq> ESC" "ESC \<noteq> LF" "LF \<noteq> ESC"
  by (simp_all add: CR_def ESC_def LF_def)

lemma print_bytes:
  "OutputManager_print s pos out =
     out @ (if truthy_int pos then [ESC, CHR ''[''] @ py_str_int pos @ ''B'' else [])
         @ [CR] @ py_str s @ [ESC, CHR ''['', CHR ''K'', CR]
         @ (if truthy_int pos then [ESC, CHR ''[''] @ py_str_int pos @ ''A'' else [])"
  by (simp add: OutputManager_print_def stdout_write_def)

lemma start_bytes:
  "OutputManager_start m out =
     out @ [CR] @ replicate (nat (lines m)) LF @ csi (lines m) (CHR ''A'') @ csi_K @ [CR]"
  by (simp add: print_bytes OutputManager_start_def truthy_int_def py_str_def csi_def csi_K_def)

lemma end_bytes:
  "OutputManager_end m out = out @ [CR] @ csi (lines m) (CHR ''B'') @ csi_K @ [CR]"
  by (simp add: print_bytes OutputManager_end_def truthy_int_def py_str_def csi_def csi_K_def)

lemma get_formatter_snd:
  "snd (OutputManager_get_formatter pos p m) =
     OutputFormatter_init (\<lambda>s. OutputManager_print s pos) p"
  by (simp add: OutputManager_get_formatter_def Let_def)

lemma init_fields:
  "f_printer (OutputFormatter_init pr p) = pr"
  "f_prefix (OutputFormatter_init pr p) = p"
  "f_committed (OutputFormatter_init pr p) = p"
  by (simp_all add: OutputFormatter_init_def)

lemma commit_fields:
  "f_printer (fst (commit s f w)) = f_printer f"
  "f_prefix (fst (commit s f w)) = f_prefix f"
  by (simp_all add: commit_def Let_def)

lemma pending_fst: "fst (pending s f w) = f"
  by (simp add: pending_def Let_def)

lemma reset_fields:
  "f_printer (fst (reset f w)) = f_printer f"
  "f_prefix (fst (reset f w)) = f_prefix f"
  by (simp_all add: reset_def commit_def Let_def)

lemma run_call_fields:
  "f_printer (fst (run_call c f w)) = f_printer f"
  "f_prefix (fst (run_call c f w)) = f_prefix f"
  by (cases c; simp add: commit_fields pending_fst reset_fields)+

lemma commits_fields:
  "f_printer (fst (commits ss f w)) = f_printer f \<and> f_prefix (fst (commits ss f w)) = f_prefix f"
proof (induction ss arbitrary: f w)
  case Nil
  show ?case by simp
next
  case (Cons s ss)
  obtain f' w' where c: "commit s f w = (f', w')"
    by (cases "commit s f w")
  from commit_fields [of s f w] c have "f_printer f' = f_printer f" "f_prefix f' = f_prefix f"
    by simp_all
  with Cons.IH [of f' w'] c show ?case by simp
qed

lemma run_calls_fields:
  "f_printer (fst (run_calls cs f w)) = f_printer f \<and> f_prefix (fst (run_calls cs f w)) = f_prefix f"
proof (induction cs arbitrary: f w)
  case Nil
  show ?case by simp
next
  case (Cons c cs)
  obtain f' w' where r: "run_call c f w = (f', w')"
    by (cases "run_call c f w")
  from run_call_fields [of c f w] r have "f_printer f' = f_printer f" "f_prefix f' = f_prefix f"
    by simp_all
  with Cons.IH [of f' w'] r show ?case by simp
qed

section \<open>Writes under the lock\<close>

lemma print_events_shape:
  "\<exists>ws. print_events s pos = Acquire # map Write ws @ [Release]
        \<and> (\<forall>out. OutputManager_print s pos out = out @ concat ws)"
proof (cases "truthy_int pos")
  case True
  let ?ws = "[[ESC, CHR ''[''] @ py_str_int pos @ ''B'',
              [CR] @ py_str s @ [ESC, CHR ''['', CHR ''K'', CR],
              [ESC, CHR ''[''] @ py_str_int pos @ ''A'']"
  have "print_events s pos = Acquire # map Write ?ws @ [Release]"
    using True by (simp add: print_events_def)
  moreover have "\<forall>out. OutputManager_print s pos out = out @ concat ?ws"
    using True by (simp add: print_bytes)
  ultimately show ?thesis by blast
next
  case False
  let ?ws = "[[CR] @ py_str s @ [ESC, CHR ''['', CHR ''K'', CR]]"
  have "print_events s pos = Acquire # map Write ?ws @ [Release]"
    using False by (simp add: print_events_def)
  moreover have "\<forall>out. OutputManager_print s pos out = out @ concat ?ws"
    using False by (simp add: print_bytes)
  ultimately show ?thesis by blast
qed

lemma thread_events_Nil: "thread_events [] = []"
  by (simp add: thread_events_def)

lemma thread_events_Cons:
  "thread_events ((s, pos) # calls) = print_events s pos @ thread_events calls"
  by (simp add: thread_events_def)

lemma print_calls_Nil: "print_calls out [] = out"
  by (simp add: print_calls_def)

lemma print_calls_Cons:
  "print_calls out ((s, pos) # calls) = print_calls (OutputManager_print s pos out) calls"
  by (simp add: print_calls_def)

lemma thread_waits: "thread_step (thread_events calls) True out = (thread_events calls, True, out)"
proof (cases calls)
  case Nil
  then show ?thesis by (simp add: thread_events_Nil)
next
  case (Cons c calls')
  obtain s pos where c: "c = (s, pos)" by (cases c)
  show ?thesis
    using Cons c by (simp add: thread_events_Cons print_events_def)
qed


lemma thread_events_empty: "thread_events calls = [] \<Longrightarrow> calls = []"
proof (cases calls)
  case Nil
  then show ?thesis by simp
next
  case (Cons c calls')
  obtain s pos where "c = (s, pos)" by (cases c)
  moreover assume "thread_events calls = []"
  ultimately show ?thesis
    using Cons by (simp add: thread_events_Cons print_events_def)
qed

lemma step1_free_Nil: "sched_step T1 (free_config out [] r2) = free_config out [] r2"
  by (simp add: sched_step.simps free_config_def thread_events_Nil)

lemma step2_free_Nil: "sched_step T2 (free_config out r1 []) = free_config out r1 []"
  by (simp add: sched_step.simps free_config_def thread_events_Nil)

lemma step1_free_Cons:
  "\<exists>ws. sched_step T1 (free_config out ((s, pos) # r1) r2) = held1_config out ws r1 r2
        \<and> OutputManager_print s pos out = out @ concat ws"
proof -
  from print_events_shape [of s pos] obtain ws
    where e: "print_events s pos = Acquire # map Write ws @ [Release]"
      and p: "\<forall>out. OutputManager_print s pos out = out @ concat ws"
    by blast
  have "sched_step T1 (free_config out ((s, pos) # r1) r2) = held1_config out ws r1 r2"
    by (simp add: sched_step.simps free_config_def held1_config_def thread_events_Cons e)
  with p show ?thesis by blast
qed

lemma step2_free_Cons:
  "\<exists>ws. sched_step T2 (free_config out r1 ((s, pos) # r2)) = held2_config out ws r1 r2
        \<and> OutputManager_print s pos out = out @ concat ws"
proof -
  from print_events_shape [of s pos] obtain ws
    where e: "print_events s pos = Acquire # map Write ws @ [Release]"
      and p: "\<forall>out. OutputManager_print s pos out = out @ concat ws"
    by blast
  have "sched_step T2 (free_config out r1 ((s, pos) # r2)) = held2_config out ws r1 r2"
    by (simp add: sched_step.simps free_config_def held2_config_def thread_events_Cons e)
  with p show ?thesis by blast
qed

lemma step1_held1:
  "sched_step T1 (held1_config out (b # ws) r1 r2) = held1_config (out @ b) ws r1 r2"
  "sched_step T1 (held1_config out [] r1 r2) = free_config out r1 r2"
  by (simp_all add: sched_step.simps held1_config_def free_config_def stdout_write_def)

lemma step2_held2:
  "sched_step T2 (held2_config out (b # ws) r1 r2) = held2_config (out @ b) ws r1 r2"
  "sched_step T2 (held2_config out [] r1 r2) = free_config out r1 r2"
  by (simp_all add: sched_step.simps held2_config_def free_config_def stdout_write_def)

lemma step2_held1: "sched_step T2 (held1_config out ws r1 r2) = held1_config out ws r1 r2"
  by (simp add: sched_step.simps held1_config_def thread_waits)

lemma step1_held2: "sched_step T1 (held2_config out ws r1 r2) = held2_config out ws r1 r2"
  by (simp add: sched_step.simps held2_config_def thread_waits)

lemma held_not_finished:
  "\<not> finished (held1_config out ws r1 r2)" "\<not> finished (held2_config out ws r1 r2)"
  by (simp_all add: finished_def held1_config_def held2_config_def)

lemma run_whole_calls:
  "(finished (run sched (free_config out r1 r2)) \<longrightarrow>
      (\<exists>cs. cs \<in> shuffles r1 r2
           \<and> run sched (free_config out r1 r2) =
            free_config (print_calls out cs) [] []))
   \<and> (finished (run sched (held1_config out ws r1 r2)) \<longrightarrow>
      (\<exists>cs. cs \<in> shuffles r1 r2
           \<and> run sched (held1_config out ws r1 r2) =
            free_config (print_calls (out @ concat ws) cs) [] []))
   \<and> (finished (run sched (held2_config out ws r1 r2)) \<longrightarrow>
      (\<exists>cs. cs \<in> shuffles r1 r2
           \<and> run sched (held2_config out ws r1 r2) =
            free_config (print_calls (out @ concat ws) cs) [] []))"
proof (induction sched arbitrary: out ws r1 r2)
  case Nil
  have "finished (free_config out r1 r2) \<longrightarrow>
          (\<exists>cs. cs \<in> shuffles r1 r2
             \<and> free_config out r1 r2 = free_config (print_calls out cs) [] [])"
  proof
    assume "finished (free_config out r1 r2)"
    then have "r1 = []" "r2 = []"
      by (simp_all add: finished_def free_config_def thread_events_empty)
    then have "[] \<in> shuffles r1 r2
        \<and> free_config out r1 r2 = free_config (print_calls out []) [] []"
      by (simp add: print_calls_Nil)
    then show "\<exists>cs. cs \<in> shuffles r1 r2
        \<and> free_config out r1 r2 = free_config (print_calls out cs) [] []"
      by blast
  qed
  then show ?case by (simp add: held_not_finished)
next
  case (Cons t ts)
  note IH_free = Cons.IH [THEN conjunct1, rule_format]
  note IH_held1 = Cons.IH [THEN conjunct2, THEN conjunct1, rule_format]
  note IH_held2 = Cons.IH [THEN conjunct2, THEN conjunct2, rule_format]
  have free: "\<exists>cs. cs \<in> shuffles r1 r2
        \<and> run (t # ts) (free_config out r1 r2) =
            free_config (print_calls out cs) [] []"
    if fin: "finished (run (t # ts) (free_config out r1 r2))"
  proof (cases t)
    case T1
    show ?thesis
    proof (cases r1)
      case Nil
      with T1 fin IH_free [of out "[]" r2] show ?thesis
        by (simp add: step1_free_Nil)
    next
      case (Cons c r1')
      obtain s pos where c: "c = (s, pos)" by (cases c)
      from step1_free_Cons [of out s pos r1' r2] obtain ws
        where st: "sched_step T1 (free_config out ((s, pos) # r1') r2) = held1_config out ws r1' r2"
          and pr: "OutputManager_print s pos out = out @ concat ws"
        by blast
      from fin T1 Cons c st have "finished (run ts (held1_config out ws r1' r2))"
        by simp
      from IH_held1 [OF this] obtain cs
        where sh: "cs \<in> shuffles r1' r2"
          and eq: "run ts (held1_config out ws r1' r2) =
            free_config (print_calls (out @ concat ws) cs) [] []"
        by blast
      from sh have "(s, pos) # cs \<in> shuffles r1 r2"
        using Cons c by (simp add: Cons_in_shuffles_leftI)
      moreover from eq pr T1 Cons c st
      have "run (t # ts) (free_config out r1 r2) =
            free_config (print_calls out ((s, pos) # cs)) [] []"
        by (simp add: print_calls_Cons)
      ultimately show ?thesis by blast
    qed
  next
    case T2
    show ?thesis
    proof (cases r2)
      case Nil
      with T2 fin IH_free [of out r1 "[]"] show ?thesis
        by (simp add: step2_free_Nil)
    next
      case (Cons c r2')
      obtain s pos where c: "c = (s, pos)" by (cases c)
      from step2_free_Cons [of out r1 s pos r2'] obtain ws
        where st: "sched_step T2 (free_config out r1 ((s, pos) # r2')) = held2_config out ws r1 r2'"
          and pr: "OutputManager_print s pos out = out @ concat ws"
        by blast
      from fin T2 Cons c st have "finished (run ts (held2_config out ws r1 r2'))"
        by simp
      from IH_held2 [OF this] obtain cs
        where sh: "cs \<in> shuffles r1 r2'"
          and eq: "run ts (held2_config out ws r1 r2') =
            free_config (print_calls (out @ concat ws) cs) [] []"
        by blast
      from sh have "(s, pos) # cs \<in> shuffles r1 r2"
        using Cons c by (simp add: Cons_in_shuffles_rightI)
      moreover from eq pr T2 Cons c st
      have "run (t # ts) (free_config out r1 r2) =
            free_config (print_calls out ((s, pos) # cs)) [] []"
        by (simp add: print_calls_Cons)
      ultimately show ?thesis by blast
    qed
  qed
  have held1: "\<exists>cs. cs \<in> shuffles r1 r2
        \<and> run (t # ts) (held1_config out ws r1 r2) =
            free_config (print_calls (out @ concat ws) cs) [] []"
    if fin: "finished (run (t # ts) (held1_config out ws r1 r2))"
  proof (cases t)
    case T1
    show ?thesis
    proof (cases ws)
      case Nil
      with T1 fin IH_free [of out r1 r2] show ?thesis
        by (simp add: step1_held1)
    next
      case (Cons b ws')
      with T1 fin IH_held1 [of "out @ b" ws' r1 r2] show ?thesis
        by (simp add: step1_held1)
    qed
  next
    case T2
    with fin IH_held1 [of out ws r1 r2] show ?thesis
      by (simp add: step2_held1)
  qed
  have held2: "\<exists>cs. cs \<in> shuffles r1 r2
        \<and> run (t # ts) (held2_config out ws r1 r2) =
            free_config (print_calls (out @ concat ws) cs) [] []"
    if fin: "finished (run (t # ts) (held2_config out ws r1 r2))"
  proof (cases t)
    case T2
    show ?thesis
    proof (cases ws)
      case Nil
      with T2 fin IH_free [of out r1 r2] show ?thesis
        by (simp add: step2_held2)
    next
      case (Cons b ws')
      with T2 fin IH_held2 [of "out @ b" ws' r1 r2] show ?thesis
        by (simp add: step2_held2)
    qed
  next
    case T1
    with fin IH_held2 [of out ws r1 r2] show ?thesis
      by (simp add: step1_held2)
  qed
  from free held1 held2 show ?case by blast
qed


lemma run_append: "run (ts @ ts') c = run ts' (run ts c)"
  by (induction ts arbitrary: c) simp_all

lemma run1_held1:
  "run (replicate (Suc (length ws)) T1) (held1_config out ws r1 r2) =
     free_config (out @ concat ws) r1 r2"
  by (induction ws arbitrary: out) (simp_all add: step1_held1)

lemma run2_held2:
  "run (replicate (Suc (length ws)) T2) (held2_config out ws r1 r2) =
     free_config (out @ concat ws) r1 r2"
  by (induction ws arbitrary: out) (simp_all add: step2_held2)

lemma run1_call:
  "run (replicate (length (print_events s pos)) T1) (free_config out ((s, pos) # r1) r2) =
     free_config (OutputManager_print s pos out) r1 r2"
proof -
  from print_events_shape [of s pos] obtain ws
    where e: "print_events s pos = Acquire # map Write ws @ [Release]"
      and p: "\<forall>out. OutputManager_print s pos out = out @ concat ws"
    by blast
  have "sched_step T1 (free_config out ((s, pos) # r1) r2) = held1_config out ws r1 r2"
    by (simp add: sched_step.simps free_config_def held1_config_def thread_events_Cons e)
  then have "run (replicate (length (print_events s pos)) T1) (free_config out ((s, pos) # r1) r2)
      = run (replicate (Suc (length ws)) T1) (held1_config out ws r1 r2)"
    by (simp add: e)
  with p show ?thesis by (simp only: run1_held1)
qed

lemma run2_call:
  "run (replicate (length (print_events s pos)) T2) (free_config out r1 ((s, pos) # r2)) =
     free_config (OutputManager_print s pos out) r1 r2"
proof -
  from print_events_shape [of s pos] obtain ws
    where e: "print_events s pos = Acquire # map Write ws @ [Release]"
      and p: "\<forall>out. OutputManager_print s pos out = out @ concat ws"
    by blast
  have "sched_step T2 (free_config out r1 ((s, pos) # r2)) = held2_config out ws r1 r2"
    by (simp add: sched_step.simps free_config_def held2_config_def thread_events_Cons e)
  then have "run (replicate (length (print_events s pos)) T2) (free_config out r1 ((s, pos) # r2))
      = run (replicate (Suc (length ws)) T2) (held2_config out ws r1 r2)"
    by (simp add: e)
  with p show ?thesis by (simp only: run2_held2)
qed

lemma run1_thread:
  "run (replicate (length (thread_events r1)) T1) (free_config out r1 r2) =
     free_config (print_calls out r1) [] r2"
proof (induction r1 arbitrary: out)
  case Nil
  show ?case by (simp add: thread_events_Nil print_calls_Nil)
next
  case (Cons c r1)
  obtain s pos where c: "c = (s, pos)" by (cases c)
  show ?case
    by (simp add: c thread_events_Cons replicate_add run_append run1_call Cons.IH
        print_calls_Cons)
qed

lemma run2_thread:
  "run (replicate (length (thread_events r2)) T2) (free_config out r1 r2) =
     free_config (print_calls out r2) r1 []"
proof (induction r2 arbitrary: out)
  case Nil
  show ?case by (simp add: thread_events_Nil print_calls_Nil)
next
  case (Cons c r2)
  obtain s pos where c: "c = (s, pos)" by (cases c)
  show ?case
    by (simp add: c thread_events_Cons replicate_add run_append run2_call Cons.IH
        print_calls_Cons)
qed

lemma shape_step:
  assumes "(\<exists>out r1 r2. c = free_config out r1 r2)
         \<or> (\<exists>out ws r1 r2. c = held1_config out ws r1 r2)
         \<or> (\<exists>out ws r1 r2. c = held2_config out ws r1 r2)"
  shows "(\<exists>out r1 r2. sched_step t c = free_config out r1 r2)
       \<or> (\<exists>out ws r1 r2. sched_step t c = held1_config out ws r1 r2)
       \<or> (\<exists>out ws r1 r2. sched_step t c = held2_config out ws r1 r2)"
  using assms
proof (elim disjE exE)
  fix out r1 r2
  assume c: "c = free_config out r1 r2"
  show ?thesis
  proof (cases t)
    case T1
    show ?thesis
    proof (cases r1)
      case Nil
      with c T1 have "sched_step t c = free_config out [] r2"
        by (simp add: step1_free_Nil)
      then show ?thesis by blast
    next
      case (Cons a r1')
      obtain s pos where "a = (s, pos)" by (cases a)
      with c T1 Cons step1_free_Cons [of out s pos r1' r2]
      obtain ws where "sched_step t c = held1_config out ws r1' r2"
        by auto
      then show ?thesis by blast
    qed
  next
    case T2
    show ?thesis
    proof (cases r2)
      case Nil
      with c T2 have "sched_step t c = free_config out r1 []"
        by (simp add: step2_free_Nil)
      then show ?thesis by blast
    next
      case (Cons a r2')
      obtain s pos where "a = (s, pos)" by (cases a)
      with c T2 Cons step2_free_Cons [of out r1 s pos r2']
      obtain ws where "sched_step t c = held2_config out ws r1 r2'"
        by auto
      then show ?thesis by blast
    qed
  qed
next
  fix out ws r1 r2
  assume c: "c = held1_config out ws r1 r2"
  show ?thesis
  proof (cases t)
    case T1
    show ?thesis
    proof (cases ws)
      case Nil
      with c T1 have "sched_step t c = free_config out r1 r2"
        by (simp add: step1_held1)
      then show ?thesis by blast
    next
      case (Cons b ws')
      with c T1 have "sched_step t c = held1_config (out @ b) ws' r1 r2"
        by (simp add: step1_held1)
      then show ?thesis by blast
    qed
  next
    case T2
    with c have "sched_step t c = held1_config out ws r1 r2"
      by (simp add: step2_held1)
    then show ?thesis by blast
  qed
next
  fix out ws r1 r2
  assume c: "c = held2_config out ws r1 r2"
  show ?thesis
  proof (cases t)
    case T2
    show ?thesis
    proof (cases ws)
      case Nil
      with c T2 have "sched_step t c = free_config out r1 r2"
        by (simp add: step2_held2)
      then show ?thesis by blast
    next
      case (Cons b ws')
      with c T2 have "sched_step t c = held2_config (out @ b) ws' r1 r2"
        by (simp add: step2_held2)
      then show ?thesis by blast
    qed
  next
    case T1
    with c have "sched_step t c = held2_config out ws r1 r2"
      by (simp add: step1_held2)
    then show ?thesis by blast
  qed
qed

lemma shape_run:
  "(\<exists>out r1 r2. c = free_config out r1 r2)
     \<or> (\<exists>out ws r1 r2. c = held1_config out ws r1 r2)
     \<or> (\<exists>out ws r1 r2. c = held2_config out ws r1 r2) \<Longrightarrow>
   (\<exists>out r1 r2. run ts c = free_config out r1 r2)
     \<or> (\<exists>out ws r1 r2. run ts c = held1_config out ws r1 r2)
     \<or> (\<exists>out ws r1 r2. run ts c = held2_config out ws r1 r2)"
proof (induction ts arbitrary: c)
  case Nil
  then show ?case by simp
next
  case (Cons t ts)
  from Cons.IH [OF shape_step [OF Cons.prems, of t]] show ?case by simp
qed

lemma free_completes:
  "finished (run (replicate (length (thread_events r1)) T1
                  @ replicate (length (thread_events r2)) T2) (free_config out r1 r2))"
proof -
  have "run (replicate (length (thread_events r1)) T1
             @ replicate (length (thread_events r2)) T2) (free_config out r1 r2) =
        free_config (print_calls (print_calls out r1) r2) [] []"
    by (simp add: run_append run1_thread run2_thread)
  then show ?thesis
    by (simp add: finished_def free_config_def thread_events_Nil)
qed

lemma shape_completes:
  assumes "(\<exists>out r1 r2. c = free_config out r1 r2)
         \<or> (\<exists>out ws r1 r2. c = held1_config out ws r1 r2)
         \<or> (\<exists>out ws r1 r2. c = held2_config out ws r1 r2)"
  shows "\<exists>ts. finished (run ts c)"
  using assms
proof (elim disjE exE)
  fix out r1 r2
  assume "c = free_config out r1 r2"
  with free_completes [of r1 r2 out] show ?thesis by blast
next
  fix out ws r1 r2
  assume "c = held1_config out ws r1 r2"
  then have "finished (run (replicate (Suc (length ws)) T1
      @ (replicate (length (thread_events r1)) T1 @ replicate (length (thread_events r2)) T2)) c)"
    by (subst run_append) (simp only: run1_held1 free_completes)
  then show ?thesis by blast
next
  fix out ws r1 r2
  assume "c = held2_config out ws r1 r2"
  then have "finished (run (replicate (Suc (length ws)) T2
      @ (replicate (length (thread_events r1)) T1 @ replicate (length (thread_events r2)) T2)) c)"
    by (subst run_append) (simp only: run2_held2 free_completes)
  then show ?thesis by blast
qed

lemma thread_step_grows: "prefix out (snd (snd (thread_step es locked out)))"
  by (cases "(es, locked, out)" rule: thread_step.cases) (simp_all add: stdout_write_def)

lemma stream_step: "prefix (stream c) (stream (sched_step t c))"
proof (cases t)
  case T1
  obtain es l out where "thread_step (prog1 c) (lock c) (stream c) = (es, l, out)"
    by (cases "thread_step (prog1 c) (lock c) (stream c)")
  with T1 thread_step_grows [of "stream c" "prog1 c" "lock c"] show ?thesis
    by (simp add: sched_step.simps)
next
  case T2
  obtain es l out where "thread_step (prog2 c) (lock c) (stream c) = (es, l, out)"
    by (cases "thread_step (prog2 c) (lock c) (stream c)")
  with T2 thread_step_grows [of "stream c" "prog2 c" "lock c"] show ?thesis
    by (simp add: sched_step.simps)
qed

lemma stream_run: "prefix (stream c) (stream (run ts c))"
proof (induction ts arbitrary: c)
  case Nil
  show ?case by simp
next
  case (Cons t ts)
  from stream_step [of c t] Cons.IH [of "sched_step t c"] show ?case
    by (auto intro: prefix_order.trans)
qed

lemma init_config_free: "init_config out calls1 calls2 = free_config out calls1 calls2"
  by (simp add: init_config_def free_config_def)

lemma finished_whole_calls:
  assumes "finished (run sched (free_config out calls1 calls2))"
  shows "\<exists>cs. cs \<in> shuffles calls1 calls2
           \<and> run sched (free_config out calls1 calls2) = free_config (print_calls out cs) [] []"
  using run_whole_calls [THEN conjunct1, rule_format, OF assms] .

lemma always_prefix_of_whole_calls:
  "\<exists>cs. cs \<in> shuffles calls1 calls2
       \<and> prefix (stream (run sched (free_config out calls1 calls2))) (print_calls out cs)"
proof -
  let ?c = "run sched (free_config out calls1 calls2)"
  have "(\<exists>out r1 r2. ?c = free_config out r1 r2)
     \<or> (\<exists>out ws r1 r2. ?c = held1_config out ws r1 r2)
     \<or> (\<exists>out ws r1 r2. ?c = held2_config out ws r1 r2)"
    by (rule shape_run) blast
  from shape_completes [OF this] obtain ts where "finished (run ts ?c)"
    by blast
  then have "finished (run (sched @ ts) (free_config out calls1 calls2))"
    by (simp add: run_append)
  from finished_whole_calls [OF this] obtain cs
    where sh: "cs \<in> shuffles calls1 calls2"
      and eq: "run ts ?c = free_config (print_calls out cs) [] []"
    by (auto simp: run_append)
  from stream_run [of ?c ts] eq have "prefix (stream ?c) (print_calls out cs)"
    by (simp add: free_config_def)
  with sh show ?thesis by blast
qed

lemma commit_step_related:
  assumes "f_printer f = (\<lambda>s. OutputManager_print s pos)" "f_printer g = log_printer"
    and "f_prefix f = f_prefix g" "f_committed f = f_committed g"
  shows "\<exists>f' g' c. (\<forall>out. commit s f out = (f', OutputManager_print c pos out))
           \<and> (\<forall>l. commit s g l = (g', l @ [c]))
           \<and> f_printer f' = (\<lambda>s. OutputManager_print s pos) \<and> f_printer g' = log_printer
           \<and> f_prefix f' = f_prefix g' \<and> f_committed f' = f_committed g'"
proof -
  let ?f = "fst (commit s f [])" and ?g = "fst (commit s g [])"
  have "\<forall>out. commit s f out = (?f, OutputManager_print (f_committed ?f) pos out)"
    using assms by (simp add: commit_def Let_def)
  moreover have "\<forall>l. commit s g l = (?g, l @ [f_committed ?f])"
    using assms by (simp add: commit_def Let_def log_printer_def)
  moreover have "f_printer ?f = (\<lambda>s. OutputManager_print s pos)" "f_printer ?g = log_printer"
    "f_prefix ?f = f_prefix ?g" "f_committed ?f = f_committed ?g"
    using assms by (simp_all add: commit_def Let_def)
  ultimately show ?thesis by blast
qed

lemma commits_related:
  "f_printer f = (\<lambda>s. OutputManager_print s pos) \<Longrightarrow> f_printer g = log_printer \<Longrightarrow>
   f_prefix f = f_prefix g \<Longrightarrow> f_committed f = f_committed g \<Longrightarrow>
   \<exists>ts. (\<forall>l. snd (commits ss g l) = l @ ts)
      \<and> (\<forall>out. snd (commits ss f out) = print_calls out (map (\<lambda>t. (t, pos)) ts))"
proof (induction ss arbitrary: f g)
  case Nil
  have "(\<forall>l. snd (commits [] g l) = l @ [])
      \<and> (\<forall>out. snd (commits [] f out) = print_calls out (map (\<lambda>t. (t, pos)) []))"
    by (simp add: print_calls_Nil)
  then show ?case by blast
next
  case (Cons s ss)
  from commit_step_related [OF Cons.prems, of s] obtain f' g' c
    where cf: "\<forall>out. commit s f out = (f', OutputManager_print c pos out)"
      and cg: "\<forall>l. commit s g l = (g', l @ [c])"
      and rel: "f_printer f' = (\<lambda>s. OutputManager_print s pos)" "f_printer g' = log_printer"
        "f_prefix f' = f_prefix g'" "f_committed f' = f_committed g'"
    by blast
  from Cons.IH [OF rel] obtain ts
    where g: "\<forall>l. snd (commits ss g' l) = l @ ts"
      and f: "\<forall>out. snd (commits ss f' out) = print_calls out (map (\<lambda>t. (t, pos)) ts)"
    by blast
  have "(\<forall>l. snd (commits (s # ss) g l) = l @ (c # ts))
      \<and> (\<forall>out. snd (commits (s # ss) f out) = print_calls out (map (\<lambda>t. (t, pos)) (c # ts)))"
    by (simp add: cf cg g f print_calls_Cons)
  then show ?case by blast
qed

lemma commits_as_calls:
  "snd (commits ss (snd (OutputManager_get_formatter pos pfx m)) out) =
     print_calls out (formatter_calls pos pfx ss)"
proof -
  from commits_related [of "snd (OutputManager_get_formatter pos pfx m)" pos
      "OutputFormatter_init log_printer pfx" ss]
  obtain ts
    where g: "\<forall>l. snd (commits ss (OutputFormatter_init log_printer pfx) l) = l @ ts"
      and f: "\<forall>out. snd (commits ss (snd (OutputManager_get_formatter pos pfx m)) out) =
                print_calls out (map (\<lambda>t. (t, pos)) ts)"
    by (auto simp: get_formatter_snd init_fields)
  from g have "snd (commits ss (OutputFormatter_init log_printer pfx) []) = ts"
    by simp
  with f show ?thesis by (simp add: formatter_calls_def)
qed

text \<open>
  C1. Two threads make calls of \<open>_print\<close>, each its own list of calls: any
  lists, and so in particular the calls that two formatters at two positions
  make when each is driven by \<open>commit\<close> (on its own, a formatter driven by
  \<open>commit\<close> writes what the whole calls of \<open>formatter_calls\<close> write). Whatever the
  scheduler does: when both threads are done, the stream holds exactly what
  the calls of both threads write when they run one whole call after the
  other, in an order that keeps the order of each thread, and the lock is
  free; at every moment of every run the stream is a prefix of such a
  sequence of whole calls, so no write of one call ever falls between the
  writes of another; and a run in which both threads finish exists. The
  unit that one call writes between acquiring and releasing the lock is, in
  this order, the move down when the position is not zero, then the carriage
  return, the text, clear to end of line and carriage return of the one
  middle write, then the move back up when the position is not zero.
\<close>

theorem print_is_atomic:
  "(finished (run sched (init_config out calls1 calls2)) \<longrightarrow>
      (\<exists>cs. cs \<in> shuffles calls1 calls2
           \<and> stream (run sched (init_config out calls1 calls2)) = print_calls out cs
           \<and> \<not> lock (run sched (init_config out calls1 calls2))))
   \<and> (\<exists>cs. cs \<in> shuffles calls1 calls2
           \<and> prefix (stream (run sched (init_config out calls1 calls2))) (print_calls out cs))
   \<and> finished (run (replicate (length (thread_events calls1)) T1
                     @ replicate (length (thread_events calls2)) T2)
                 (init_config out calls1 calls2))
   \<and> print_events (Some t) (Some P) =
       [Acquire]
       @ (if P = 0 then [] else [Write (csi P (CHR ''B''))])
       @ [Write ([CR] @ t @ csi_K @ [CR])]
       @ (if P = 0 then [] else [Write (csi P (CHR ''A''))])
       @ [Release]
   \<and> snd (commits ss (snd (OutputManager_get_formatter pos pfx m)) out) =
       print_calls out (formatter_calls pos pfx ss)"
proof (intro conjI impI)
  assume "finished (run sched (init_config out calls1 calls2))"
  then have "finished (run sched (free_config out calls1 calls2))"
    by (simp add: init_config_free)
  from finished_whole_calls [OF this] obtain cs
    where "cs \<in> shuffles calls1 calls2"
      and "run sched (free_config out calls1 calls2) = free_config (print_calls out cs) [] []"
    by blast
  then have "cs \<in> shuffles calls1 calls2
      \<and> stream (run sched (init_config out calls1 calls2)) = print_calls out cs
      \<and> \<not> lock (run sched (init_config out calls1 calls2))"
    by (simp add: init_config_free free_config_def)
  then show "\<exists>cs. cs \<in> shuffles calls1 calls2
      \<and> stream (run sched (init_config out calls1 calls2)) = print_calls out cs
      \<and> \<not> lock (run sched (init_config out calls1 calls2))"
    by blast
next
  show "\<exists>cs. cs \<in> shuffles calls1 calls2
      \<and> prefix (stream (run sched (init_config out calls1 calls2))) (print_calls out cs)"
    using always_prefix_of_whole_calls [of calls1 calls2 sched out]
    by (simp add: init_config_free)
next
  show "finished (run (replicate (length (thread_events calls1)) T1
                     @ replicate (length (thread_events calls2)) T2)
                 (init_config out calls1 calls2))"
    by (simp only: init_config_free free_completes)
next
  show "print_events (Some t) (Some P) =
       [Acquire]
       @ (if P = 0 then [] else [Write (csi P (CHR ''B''))])
       @ [Write ([CR] @ t @ csi_K @ [CR])]
       @ (if P = 0 then [] else [Write (csi P (CHR ''A''))])
       @ [Release]"
    by (simp add: print_events_def truthy_int_def py_str_int_def py_str_def csi_def csi_K_def)
next
  show "snd (commits ss (snd (OutputManager_get_formatter pos pfx m)) out) =
       print_calls out (formatter_calls pos pfx ss)"
    by (rule commits_as_calls)
qed

text \<open>
  C1, for a formatter at position 1 with prefix \<open>a\<close> driven by
  \<open>commit("x")\<close> and a formatter at position 2 with prefix \<open>b\<close> driven by
  \<open>commit()\<close>, on a schedule that lets the second thread try for the lock
  while the first is in the middle of its call: the second waits, and the
  stream holds the whole call at position 1 followed by the whole call at
  position 2.
\<close>

theorem print_is_atomic_witness:
  "finished (run [T1, T2, T1, T2, T1, T2, T1, T2, T1, T2, T2, T2, T2, T2]
              (init_config [] (formatter_calls (Some 1) (Some ''a'') [Some ''x''])
                              (formatter_calls (Some 2) (Some ''b'') [None])))
   \<and> stream (run [T1, T2, T1, T2, T1, T2, T1, T2, T1, T2, T2, T2, T2, T2]
              (init_config [] (formatter_calls (Some 1) (Some ''a'') [Some ''x''])
                              (formatter_calls (Some 2) (Some ''b'') [None]))) =
       print_calls [] [(Some ''a x'', Some 1), (Some ''b'', Some 2)]"
  using print_is_atomic [of "[T1, T2, T1, T2, T1, T2, T1, T2, T1, T2, T2, T2, T2, T2]" "[]"
      "formatter_calls (Some 1) (Some ''a'') [Some ''x'']"
      "formatter_calls (Some 2) (Some ''b'') [None]"]
  by (simp add: formatter_calls_def commit_def truthy_def py_str_def OutputFormatter_init_def
      log_printer_def init_config_def thread_events_def print_events_def truthy_int_def
      sched_step.simps finished_def print_calls_def print_bytes stdout_write_def)

section \<open>The bytes written to the stream\<close>

text \<open>
  C2. The bytes of the spec's table are not all that an event writes:
  \<open>_print\<close> ends its middle write with a carriage return after \<open>CSI K\<close>, and
  \<open>start\<close> and \<open>end\<close> go through \<open>_print\<close> too, so their sequences are
  wrapped in a leading carriage return and a trailing \<open>CSI K\<close>, carriage
  return. At line count 1, position 2, position 0 and text \<open>x\<close> none of the
  four events writes the bytes of the table.
\<close>

theorem emitted_bytes_counterexample:
  "OutputManager_start (OutputManager_init 1) [] \<noteq> [LF] @ csi 1 (CHR ''A'')
   \<and> OutputManager_print (Some ''x'') (Some 2) [] \<noteq>
       csi 2 (CHR ''B'') @ [CR] @ ''x'' @ csi_K @ csi 2 (CHR ''A'')
   \<and> OutputManager_print (Some ''x'') (Some 0) [] \<noteq> [CR] @ ''x'' @ csi_K
   \<and> OutputManager_end (OutputManager_init 1) [] \<noteq> csi 1 (CHR ''B'')"
  by (simp add: print_bytes OutputManager_start_def OutputManager_end_def OutputManager_init_def
      truthy_int_def py_str_int_def py_str_def csi_def csi_K_def str_int_def str_nat.simps
      digit_char_def ESC_def CR_def LF_def)

text \<open>
  C2, as the code has it. For every line count \<open>N\<close>, every position \<open>P \<noteq> 0\<close>
  and every text, the bytes appended to the stream are exactly:
  for \<open>start()\<close>, carriage return, \<open>N\<close> line feeds (none when \<open>N\<close> is negative),
  \<open>CSI N A\<close>, \<open>CSI K\<close>, carriage return;
  for a write at position \<open>P\<close>, \<open>CSI P B\<close>, carriage return, the text, \<open>CSI K\<close>,
  carriage return, \<open>CSI P A\<close>;
  for a write at position 0, carriage return, the text, \<open>CSI K\<close>, carriage return;
  for \<open>end()\<close>, carriage return, \<open>CSI N B\<close>, \<open>CSI K\<close>, carriage return.
\<close>

theorem emitted_bytes:
  assumes "P \<noteq> 0"
  shows "OutputManager_start m out =
           out @ [CR] @ replicate (nat (lines m)) LF @ csi (lines m) (CHR ''A'') @ csi_K @ [CR]
       \<and> OutputManager_print (Some t) (Some P) out =
           out @ csi P (CHR ''B'') @ [CR] @ t @ csi_K @ [CR] @ csi P (CHR ''A'')
       \<and> OutputManager_print (Some t) (Some 0) out = out @ [CR] @ t @ csi_K @ [CR]
       \<and> OutputManager_end m out = out @ [CR] @ csi (lines m) (CHR ''B'') @ csi_K @ [CR]"
  using assms
  by (simp add: print_bytes OutputManager_start_def OutputManager_end_def truthy_int_def
      py_str_int_def py_str_def csi_def csi_K_def)

text \<open>
  C2, at line count 2, position 3 and text \<open>ab\<close>.
\<close>

theorem emitted_bytes_witness:
  "(3::int) \<noteq> 0
   \<and> OutputManager_start (OutputManager_init 2) [] =
       [CR, LF, LF, ESC, CHR ''['', CHR ''2'', CHR ''A'', ESC, CHR ''['', CHR ''K'', CR]
   \<and> OutputManager_print (Some ''ab'') (Some 3) [] =
       [ESC, CHR ''['', CHR ''3'', CHR ''B'', CR, CHR ''a'', CHR ''b'', ESC, CHR ''['', CHR ''K'', CR,
        ESC, CHR ''['', CHR ''3'', CHR ''A'']
   \<and> OutputManager_print (Some ''ab'') (Some 0) [] =
       [CR, CHR ''a'', CHR ''b'', ESC, CHR ''['', CHR ''K'', CR]
   \<and> OutputManager_end (OutputManager_init 2) [] =
       [CR, ESC, CHR ''['', CHR ''2'', CHR ''B'', ESC, CHR ''['', CHR ''K'', CR]"
  using emitted_bytes [of 3 "OutputManager_init 2" "[]" "''ab''"]
  by (simp add: OutputManager_init_def csi_def csi_K_def str_int_def str_nat.simps digit_char_eval
      replicate_small)

section \<open>commit\<close>

lemma commit_text_prefix:
  "prefix (committed_text (f_committed f)) (committed_text (f_committed (fst (commit s f w))))"
  by (cases "f_committed f")
     (simp_all add: commit_def Let_def committed_text_def truthy_def py_str_def)

lemma commits_text_prefix:
  "prefix (committed_text (f_committed f)) (committed_text (f_committed (fst (commits ss f w))))"
proof (induction ss arbitrary: f w)
  case Nil
  show ?case by simp
next
  case (Cons s ss)
  obtain f' w' where c: "commit s f w = (f', w')"
    by (cases "commit s f w")
  from commit_text_prefix [of f s w] c
  have "prefix (committed_text (f_committed f)) (committed_text (f_committed f'))"
    by simp
  moreover from Cons.IH [of f' w']
  have "prefix (committed_text (f_committed f')) (committed_text (f_committed (fst (commits ss f' w'))))" .
  ultimately show ?case using c by (auto intro: prefix_order.trans)
qed

text \<open>
  C3. "When committed text already exists" does not hold for a committed
  text that is present but empty: on a formatter with prefix \<open>""\<close> the call
  \<open>commit("x")\<close> sets the committed text to \<open>"x"\<close> and renders \<open>"x"\<close>, not
  \<open>" x"\<close>.
\<close>

theorem commit_empty_prefix_counterexample:
  "f_committed (fst (commit (Some ''x'') (OutputFormatter_init log_printer (Some [])) [])) \<noteq>
     Some '' x''
   \<and> snd (commit (Some ''x'') (OutputFormatter_init log_printer (Some [])) []) \<noteq> [Some '' x'']
   \<and> commit (Some ''x'') (OutputFormatter_init log_printer (Some [])) [] =
       ((OutputFormatter_init log_printer (Some []))\<lparr>f_committed := Some ''x''\<rparr>, [Some ''x''])"
  by (simp add: commit_def truthy_def OutputFormatter_init_def log_printer_def)

text \<open>
  C3, as the code has it. A call \<open>commit(suffix)\<close> with a present, non-empty
  suffix \<open>t\<close> sets the committed text to \<open>"<committed> <t>"\<close> when the committed
  text is present and non-empty (the test \<open>self._committed\<close> of the source),
  and to \<open>t\<close> when it is absent or the empty string; then it calls the printer
  with the new committed text. Committed text only grows: what was committed
  before any sequence of \<open>commit\<close> calls is a prefix of what is committed
  after it. With prefix \<open>task-a\<close>, the calls \<open>commit("running")\<close> and
  \<open>commit("done")\<close> render \<open>task-a running\<close> and then \<open>task-a running done\<close>.
\<close>

theorem commit_appends_and_renders:
  assumes "t \<noteq> []"
  shows "commit (Some t) f w =
           (f\<lparr>f_committed :=
                 Some (if truthy (f_committed f)
                       then committed_text (f_committed f) @ '' '' @ t else t)\<rparr>,
            f_printer f
              (Some (if truthy (f_committed f)
                     then committed_text (f_committed f) @ '' '' @ t else t)) w)
       \<and> prefix (committed_text (f_committed f))
                (committed_text (f_committed (fst (commits ss f w))))
       \<and> snd (commits [Some ''running'', Some ''done'']
                (OutputFormatter_init log_printer (Some ''task-a'')) []) =
           [Some ''task-a running'', Some ''task-a running done'']"
proof (intro conjI)
  show "commit (Some t) f w =
           (f\<lparr>f_committed :=
                 Some (if truthy (f_committed f)
                       then committed_text (f_committed f) @ '' '' @ t else t)\<rparr>,
            f_printer f
              (Some (if truthy (f_committed f)
                     then committed_text (f_committed f) @ '' '' @ t else t)) w)"
    using assms
    by (cases "f_committed f")
       (simp_all add: commit_def Let_def truthy_def py_str_def committed_text_def)
  show "prefix (committed_text (f_committed f))
                (committed_text (f_committed (fst (commits ss f w))))"
    by (rule commits_text_prefix)
  show "snd (commits [Some ''running'', Some ''done'']
                (OutputFormatter_init log_printer (Some ''task-a'')) []) =
           [Some ''task-a running'', Some ''task-a running done'']"
    by (simp add: commit_def Let_def truthy_def py_str_def OutputFormatter_init_def
        log_printer_def)
qed

text \<open>
  C3, at suffix \<open>running\<close> on a fresh formatter with prefix \<open>task-a\<close>.
\<close>

theorem commit_appends_and_renders_witness:
  "''running'' \<noteq> []
   \<and> commit (Some ''running'') (OutputFormatter_init log_printer (Some ''task-a'')) [] =
       ((OutputFormatter_init log_printer (Some ''task-a''))
           \<lparr>f_committed := Some ''task-a running''\<rparr>,
        [Some ''task-a running''])
   \<and> prefix ''task-a''
        (committed_text (f_committed (fst (commits [Some ''running'', Some ''done'']
           (OutputFormatter_init log_printer (Some ''task-a'')) []))))"
proof -
  have h: "''running'' \<noteq> []" by simp
  show ?thesis
    using h commit_appends_and_renders [OF h,
        of "OutputFormatter_init log_printer (Some ''task-a'')" "[]"
           "[Some ''running'', Some ''done'']"]
    by (simp add: init_fields truthy_def committed_text_def log_printer_def
        del: commits.simps)
qed

section \<open>pending\<close>

text \<open>
  C4. \<open>pending\<close> does not render for every suffix: with the empty string it
  calls the printer not at all, where the specification has it render \<open>"task-a "\<close> on
  a formatter with prefix \<open>task-a\<close>, and the empty string on a formatter with
  no committed text. Nor is it only an absent committed text that makes it
  render the suffix alone: on a formatter with prefix \<open>""\<close>, \<open>pending("x")\<close>
  renders \<open>"x"\<close>, not \<open>" x"\<close>.
\<close>

theorem pending_empty_counterexample:
  "snd (pending (Some []) (OutputFormatter_init log_printer (Some ''task-a'')) []) \<noteq>
     [Some ''task-a '']
   \<and> snd (pending (Some []) (OutputFormatter_init log_printer None) []) \<noteq> [Some []]
   \<and> snd (pending (Some ''x'') (OutputFormatter_init log_printer (Some [])) []) \<noteq>
       [Some '' x'']
   \<and> snd (pending (Some ''x'') (OutputFormatter_init log_printer (Some [])) []) = [Some ''x'']"
  by (simp add: pending_def truthy_def OutputFormatter_init_def log_printer_def)

text \<open>
  C4, as the code has it. For every non-empty suffix \<open>t\<close>, \<open>pending(t)\<close> calls
  the printer once, with \<open>"<committed> <t>"\<close> when the committed text is present
  and non-empty and with \<open>t\<close> when it is absent or the empty string. For
  every suffix \<open>s\<close>, empty and absent ones too, the formatter returned is the
  formatter given, so its committed field is the same before and after, and
  a \<open>commit(None)\<close> that follows renders the committed text as it was before
  \<open>pending\<close>. With prefix \<open>task-a\<close>, \<open>pending("x")\<close> renders \<open>task-a x\<close> and the
  following \<open>commit(None)\<close> renders \<open>task-a\<close>. With an absent suffix and with
  the empty string \<open>pending\<close> does not call the printer: formatter and world
  come back as they were.
\<close>

theorem pending_keeps_committed:
  assumes "t \<noteq> []"
  shows "pending (Some t) f w =
           (f, f_printer f
                 (Some (if truthy (f_committed f)
                        then committed_text (f_committed f) @ '' '' @ t else t)) w)
       \<and> fst (pending s f w) = f
       \<and> commit None (fst (pending s f w)) (snd (pending s f w)) =
           (f, f_printer f (f_committed f) (snd (pending s f w)))
       \<and> snd (run_calls [Pending (Some ''x''), Commit None]
                (OutputFormatter_init log_printer (Some ''task-a'')) []) =
           [Some ''task-a x'', Some ''task-a'']
       \<and> pending None f w = (f, w)
       \<and> pending (Some []) f w = (f, w)"
proof (intro conjI)
  show "pending (Some t) f w =
           (f, f_printer f
                 (Some (if truthy (f_committed f)
                        then committed_text (f_committed f) @ '' '' @ t else t)) w)"
    using assms
    by (cases "f_committed f")
       (simp_all add: pending_def Let_def truthy_def py_str_def committed_text_def)
  show "fst (pending s f w) = f"
    by (rule pending_fst)
  show "commit None (fst (pending s f w)) (snd (pending s f w)) =
           (f, f_printer f (f_committed f) (snd (pending s f w)))"
    by (simp add: pending_fst commit_def truthy_def)
  show "snd (run_calls [Pending (Some ''x''), Commit None]
                (OutputFormatter_init log_printer (Some ''task-a'')) []) =
           [Some ''task-a x'', Some ''task-a'']"
    by (simp add: pending_def commit_def Let_def truthy_def py_str_def OutputFormatter_init_def
        log_printer_def)
  show "pending None f w = (f, w)"
    by (simp add: pending_def truthy_def)
  show "pending (Some []) f w = (f, w)"
    by (simp add: pending_def truthy_def)
qed

text \<open>
  C4, at suffix \<open>x\<close> on a fresh formatter with prefix \<open>task-a\<close>.
\<close>

theorem pending_keeps_committed_witness:
  "''x'' \<noteq> []
   \<and> pending (Some ''x'') (OutputFormatter_init log_printer (Some ''task-a'')) [] =
       (OutputFormatter_init log_printer (Some ''task-a''), [Some ''task-a x''])
   \<and> pending None (OutputFormatter_init log_printer (Some ''task-a'')) [] =
       (OutputFormatter_init log_printer (Some ''task-a''), [])"
proof -
  have h: "''x'' \<noteq> []" by simp
  show ?thesis
    using h pending_keeps_committed [OF h,
        of "OutputFormatter_init log_printer (Some ''task-a'')" "[]" None]
    by (simp add: init_fields truthy_def committed_text_def log_printer_def
        del: run_calls.simps)
qed

section \<open>reset\<close>

text \<open>
  C5. On a formatter constructed with printer \<open>pr\<close> and prefix \<open>p\<close>, after any
  sequence of \<open>commit\<close> calls, \<open>reset()\<close> gives back the formatter as it was
  constructed (committed text \<open>p\<close>, every appended suffix gone) and calls the
  printer once, with \<open>p\<close>. With prefix \<open>task-a\<close>, \<open>commit("running")\<close>,
  \<open>commit("done")\<close>, \<open>reset()\<close> render \<open>task-a running\<close>,
  \<open>task-a running done\<close>, \<open>task-a\<close>.
\<close>

theorem reset_restores_prefix:
  "reset (fst (commits ss (OutputFormatter_init pr p) w)) w' =
     (OutputFormatter_init pr p, pr p w')
   \<and> snd (run_calls [Commit (Some ''running''), Commit (Some ''done''), Reset]
            (OutputFormatter_init log_printer (Some ''task-a'')) []) =
       [Some ''task-a running'', Some ''task-a running done'', Some ''task-a'']"
proof (intro conjI)
  let ?f = "fst (commits ss (OutputFormatter_init pr p) w)"
  have pr: "f_printer ?f = pr" and pf: "f_prefix ?f = p"
    using commits_fields [of ss "OutputFormatter_init pr p" w] by (simp_all add: init_fields)
  have "?f\<lparr>f_committed := p\<rparr> = OutputFormatter_init pr p"
    using pr pf by (cases ?f) (simp add: OutputFormatter_init_def)
  then show "reset ?f w' = (OutputFormatter_init pr p, pr p w')"
    by (simp add: reset_def commit_def truthy_def pf init_fields)
  show "snd (run_calls [Commit (Some ''running''), Commit (Some ''done''), Reset]
            (OutputFormatter_init log_printer (Some ''task-a'')) []) =
       [Some ''task-a running'', Some ''task-a running done'', Some ''task-a'']"
    by (simp add: reset_def commit_def Let_def truthy_def py_str_def OutputFormatter_init_def
        log_printer_def)
qed

section \<open>The committed text is defined\<close>

lemma commit_defined:
  "truthy (f_prefix f) \<longrightarrow> f_committed f \<noteq> None \<Longrightarrow>
   truthy (f_prefix f) \<or> truthy s \<Longrightarrow> f_committed (fst (commit s f w)) \<noteq> None"
  by (cases s) (auto simp: commit_def Let_def truthy_def)

lemma run_call_inv:
  "truthy (f_prefix f) \<longrightarrow> f_committed f \<noteq> None \<Longrightarrow>
   truthy (f_prefix f) \<longrightarrow> f_committed (fst (run_call c f w)) \<noteq> None"
proof (cases c)
  case (Commit s)
  assume "truthy (f_prefix f) \<longrightarrow> f_committed f \<noteq> None"
  then show ?thesis using Commit commit_defined [of f s w] by simp
next
  case (Pending s)
  assume "truthy (f_prefix f) \<longrightarrow> f_committed f \<noteq> None"
  then show ?thesis using Pending by (simp add: pending_fst)
next
  case Reset
  then show ?thesis by (auto simp: reset_def commit_def truthy_def split: option.splits)
qed

lemma run_calls_inv:
  "truthy (f_prefix f) \<longrightarrow> f_committed f \<noteq> None \<Longrightarrow>
   truthy (f_prefix f) \<longrightarrow> f_committed (fst (run_calls cs f w)) \<noteq> None"
proof (induction cs arbitrary: f w)
  case Nil
  then show ?case by simp
next
  case (Cons c cs)
  obtain f' w' where r: "run_call c f w = (f', w')"
    by (cases "run_call c f w")
  from run_call_fields [of c f w] r have pf: "f_prefix f' = f_prefix f"
    by simp
  from run_call_inv [OF Cons.prems, of c w] r pf
  have "truthy (f_prefix f') \<longrightarrow> f_committed f' \<noteq> None"
    by simp
  from Cons.IH [OF this, of w'] r pf show ?case by simp
qed

text \<open>
  C6. The invariant "a non-empty prefix implies a defined committed text"
  holds at construction, where the committed text is the prefix, and every
  \<open>commit\<close> preserves it. So on a formatter constructed with prefix \<open>p\<close>, after
  any sequence of calls of its methods, a call \<open>commit(s)\<close> leaves the committed
  text defined whenever \<open>p\<close> or \<open>s\<close> is non-empty.
\<close>

theorem committed_defined_after_commit:
  "f_committed (OutputFormatter_init pr p) = p
   \<and> ((truthy (f_prefix f) \<longrightarrow> f_committed f \<noteq> None) \<longrightarrow>
        (truthy (f_prefix (fst (commit s f w))) \<longrightarrow> f_committed (fst (commit s f w)) \<noteq> None))
   \<and> (truthy p \<or> truthy s \<longrightarrow>
        f_committed (fst (commit s (fst (run_calls cs (OutputFormatter_init pr p) w)) w')) \<noteq> None)"
proof (intro conjI impI)
  show "f_committed (OutputFormatter_init pr p) = p"
    by (simp add: init_fields)
next
  assume "truthy (f_prefix f) \<longrightarrow> f_committed f \<noteq> None"
     and "truthy (f_prefix (fst (commit s f w)))"
  then show "f_committed (fst (commit s f w)) \<noteq> None"
    using commit_defined [of f s w] by (simp add: commit_fields)
next
  let ?f = "fst (run_calls cs (OutputFormatter_init pr p) w)"
  assume ps: "truthy p \<or> truthy s"
  have "truthy (f_prefix (OutputFormatter_init pr p)) \<longrightarrow>
          f_committed (OutputFormatter_init pr p) \<noteq> None"
    by (simp add: init_fields truthy_def split: option.splits)
  from run_calls_inv [OF this, of cs w]
  have inv: "truthy (f_prefix ?f) \<longrightarrow> f_committed ?f \<noteq> None"
    using run_calls_fields [of cs "OutputFormatter_init pr p" w] by simp
  have "f_prefix ?f = p"
    using run_calls_fields [of cs "OutputFormatter_init pr p" w] by (simp add: init_fields)
  with ps have "truthy (f_prefix ?f) \<or> truthy s" by simp
  from commit_defined [OF inv this] show "f_committed (fst (commit s ?f w')) \<noteq> None" .
qed

text \<open>
  C6, on a formatter with prefix \<open>task-a\<close> and at suffix \<open>x\<close>.
\<close>

theorem committed_defined_after_commit_witness:
  "truthy (f_prefix (OutputFormatter_init log_printer (Some ''task-a'')))
   \<and> f_committed (OutputFormatter_init log_printer (Some ''task-a'')) \<noteq> None
   \<and> truthy (f_prefix (fst (commit (Some ''x'')
         (OutputFormatter_init log_printer (Some ''task-a'')) [])))
   \<and> f_committed (fst (commit (Some ''x'')
         (OutputFormatter_init log_printer (Some ''task-a'')) [])) \<noteq> None
   \<and> truthy (Some ''task-a'') \<and> truthy (Some ''x'')
   \<and> f_committed (fst (commit (Some ''x'')
        (fst (run_calls [Commit (Some ''x''), Pending (Some ''y''), Reset]
               (OutputFormatter_init log_printer (Some ''task-a'')) [])) [])) \<noteq> None"
  using committed_defined_after_commit [of log_printer "Some ''task-a''"
      "OutputFormatter_init log_printer (Some ''task-a'')" "Some ''x''" "[]"
      "[Commit (Some ''x''), Pending (Some ''y''), Reset]" "[]"]
  by (simp add: init_fields commit_fields truthy_def del: run_calls.simps)

section \<open>Empty suffixes\<close>

text \<open>
  C7. On every formatter and in every world, \<open>commit\<close> with the empty string
  does exactly what \<open>commit\<close> with \<open>None\<close> does: the formatter is returned
  unchanged (so nothing is appended and the committed text is the same) and
  the printer is called once, with the committed text as it was.
\<close>

theorem commit_empty_same_as_absent:
  "commit (Some []) f w = commit None f w
   \<and> commit (Some []) f w = (f, f_printer f (f_committed f) w)
   \<and> f_committed (fst (commit (Some []) f w)) = f_committed f"
  by (simp add: commit_def truthy_def)

text \<open>
  C10. On every formatter, whether or not it has committed text, \<open>pending\<close>
  with the empty string leaves the formatter and the world untouched: the
  printer is not called, so a formatter of an \<open>OutputManager\<close> writes nothing
  to the stream. \<open>commit\<close> with the empty string, in contrast, calls the
  printer with the committed text.
\<close>

theorem pending_empty_no_render:
  "pending (Some []) f w = (f, w)
   \<and> snd (pending (Some []) (snd (OutputManager_get_formatter pos pfx m)) out) = out
   \<and> snd (commit (Some []) f w) = f_printer f (f_committed f) w"
  by (simp add: pending_def commit_def truthy_def)

section \<open>The row of the cursor\<close>

lemma digits_fold: "foldl (term_step z) (Csi 0, r) (str_nat n) = (Csi n, r)"
proof (induction n rule: str_nat.induct)
  case (1 n)
  show ?case
  proof (cases "n < 10")
    case True
    then show ?thesis
      by (simp add: str_nat.simps[of n] digit_char_def is_digit_def digit_val_def)
  next
    case False
    with 1 show ?thesis
      by (simp add: str_nat.simps[of n] digit_char_def is_digit_def digit_val_def)
  qed
qed

lemma lf_fold: "foldl (term_step z) (Ground, r) (replicate k LF) = (Ground, r + int k)"
  by (induction k arbitrary: r) auto

lemma csi_fold:
  assumes "0 \<le> n"
  shows "foldl (term_step z) (Ground, r) (csi n (CHR ''A'')) = (Ground, r - csi_rows z (nat n))"
    and "foldl (term_step z) (Ground, r) (csi n (CHR ''B'')) = (Ground, r + csi_rows z (nat n))"
  using assms
  by (simp_all add: csi_def str_int_def digits_fold is_digit_def ESC_def LF_def)

lemma csi_K_fold: "foldl (term_step z) (Ground, r) csi_K = (Ground, r)"
  by (simp add: csi_K_def is_digit_def ESC_def LF_def)

text \<open>
  C8. \<open>start()\<close> then \<open>end()\<close> does not leave the cursor on its row: at line
  count 1 the stream holds one line feed (down one), \<open>CSI 1 A\<close> (up one) and
  \<open>CSI 1 B\<close> (down one), a net movement of one row down, whatever a
  parameter \<open>0\<close> stands for.
\<close>

theorem start_end_row_delta_counterexample:
  "row_delta 0 (OutputManager_end (OutputManager_init 1)
                  (OutputManager_start (OutputManager_init 1) [])) \<noteq> 0
   \<and> row_delta 1 (OutputManager_end (OutputManager_init 1)
                  (OutputManager_start (OutputManager_init 1) [])) \<noteq> 0"
  by (simp add: start_bytes end_bytes row_delta_def lf_fold csi_fold csi_K_fold ctrl_distinct
      csi_rows_def OutputManager_init_def)

text \<open>
  C8, as the code has it. For every line count \<open>N \<ge> 0\<close>, the bytes written by
  \<open>start()\<close> and then \<open>end()\<close>, with no write in between, move the cursor \<open>N\<close>
  rows down in all: \<open>N\<close> line feeds down, \<open>CSI N A\<close> up and \<open>CSI N B\<close> down, the
  two control sequences cancelling each other. For \<open>N > 0\<close> the bytes of
  \<open>start()\<close> alone bring the cursor back to the row it started on.
\<close>

theorem start_end_row_delta:
  assumes "0 \<le> lines m"
  shows "row_delta z (drop (length out) (OutputManager_end m (OutputManager_start m out))) =
           lines m
       \<and> (0 < lines m \<longrightarrow>
            row_delta z (drop (length out) (OutputManager_start m out)) = 0)"
  using assms
  by (simp add: start_bytes end_bytes row_delta_def lf_fold csi_fold csi_K_fold ctrl_distinct
      csi_rows_def)

text \<open>
  C8, at line count 3.
\<close>

theorem start_end_row_delta_witness:
  "0 \<le> lines (OutputManager_init 3)
   \<and> row_delta 0 (OutputManager_end (OutputManager_init 3)
                    (OutputManager_start (OutputManager_init 3) [])) = 3
   \<and> 0 < lines (OutputManager_init 3)
   \<and> row_delta 0 (OutputManager_start (OutputManager_init 3) []) = 0"
  using start_end_row_delta [of "OutputManager_init 3" 0 "[]"]
  by (simp add: OutputManager_init_def)

section \<open>A formatter with no prefix\<close>

text \<open>
  C9. On a formatter constructed with no prefix, \<open>commit()\<close> with no suffix
  and \<open>reset()\<close> return the formatter as constructed, its committed text
  still \<open>None\<close>, and call the printer once, with \<open>None\<close>. On a formatter
  handed out by \<open>get_formatter\<close> for position \<open>P\<close> this writes the four
  characters \<open>None\<close> as the text of a write at position \<open>P\<close>.
\<close>

theorem no_prefix_renders_None:
  "commit None (OutputFormatter_init pr None) w = (OutputFormatter_init pr None, pr None w)
   \<and> reset (OutputFormatter_init pr None) w = (OutputFormatter_init pr None, pr None w)
   \<and> f_committed (snd (OutputManager_get_formatter (Some P) None m)) = None
   \<and> snd (commit None (snd (OutputManager_get_formatter (Some P) None m)) out) =
       out @ (if P = 0 then [] else csi P (CHR ''B'')) @ [CR] @ ''None'' @ csi_K @ [CR]
           @ (if P = 0 then [] else csi P (CHR ''A''))
   \<and> snd (reset (snd (OutputManager_get_formatter (Some P) None m)) out) =
       out @ (if P = 0 then [] else csi P (CHR ''B'')) @ [CR] @ ''None'' @ csi_K @ [CR]
           @ (if P = 0 then [] else csi P (CHR ''A''))"
  by (simp add: reset_def commit_def truthy_def OutputFormatter_init_def
      get_formatter_snd print_bytes truthy_int_def py_str_int_def py_str_def
      csi_def csi_K_def)

end
